theory Spec2Isabelle
  imports
    Main
    "HOL-Library.Multiset"
    "HOL-Library.Char_ord"
    "HOL-Library.List_Lexorder"
    "HOL-Library.Product_Lexorder"
begin

section \<open>The reminder table of health\_app.py\<close>

text \<open>
  One row of the table \<^verbatim>\<open>reminders\<close> created by \<^verbatim>\<open>init_db\<close>:
  \<^verbatim>\<open>id INTEGER PRIMARY KEY AUTOINCREMENT, med_name TEXT NOT NULL, dose TEXT,
  remind_datetime TEXT NOT NULL, notified INTEGER DEFAULT 0, note TEXT\<close>.
  It is also the dictionary that \<^verbatim>\<open>get_reminders_from_db\<close> builds from a row.
  Text is a list of bytes; SQLite compares TEXT bytewise (collation BINARY), which is the
  lexicographic order on \<^typ>\<open>string\<close>.
\<close>

record reminder =
  rem_id :: int
  med_name :: string
  dose :: string
  remind_datetime :: string
  notified :: int
  note_text :: string

text \<open>
  The database file: the rows of the table in rowid order, and the counter that
  AUTOINCREMENT keeps in \<^verbatim>\<open>sqlite_sequence\<close> (the largest id ever handed out).
  Every helper of the source opens a connection, runs one statement, commits and closes;
  the model runs the statement on the table. Storage is taken to be reliable: no helper
  raises.
\<close>

record db =
  reminders :: "reminder list"
  sqlite_sequence :: int

text \<open>\<^verbatim>\<open>init_db\<close> on a fresh file: an empty table.\<close>

definition init_db :: db where
  "init_db = \<lparr>reminders = [], sqlite_sequence = 0\<rparr>"

text \<open>
  \<^verbatim>\<open>INSERT INTO reminders (med_name, dose, remind_datetime, notified, note)
  VALUES (?, ?, ?, 0, ?)\<close>. The function checks nothing and returns nothing; the new id
  is one more than the largest id ever used.
\<close>

definition add_reminder_to_db :: "string \<Rightarrow> string \<Rightarrow> string \<Rightarrow> string \<Rightarrow> db \<Rightarrow> db" where
  "add_reminder_to_db name dos remind_dt_str nt d =
     (let i = sqlite_sequence d + 1 in
      \<lparr>reminders = reminders d @
         [\<lparr>rem_id = i, med_name = name, dose = dos, remind_datetime = remind_dt_str,
           notified = 0, note_text = nt\<rparr>],
       sqlite_sequence = i\<rparr>)"

text \<open>
  \<^verbatim>\<open>SELECT ... FROM reminders [WHERE notified=0] ORDER BY remind_datetime\<close>.
  Rows with the same \<^verbatim>\<open>remind_datetime\<close> come out in rowid order (SQL leaves the
  order of ties open; the model takes the stable one for both queries).
\<close>

definition get_reminders_from_db :: "bool \<Rightarrow> db \<Rightarrow> reminder list" where
  "get_reminders_from_db include_notified d =
     (if include_notified then sort_key remind_datetime (reminders d)
      else sort_key remind_datetime (filter (\<lambda>r. notified r = 0) (reminders d)))"

text \<open>\<^verbatim>\<open>DELETE FROM reminders WHERE id = ?\<close>: no row for the id is not an error.\<close>

definition delete_reminder_from_db :: "int \<Rightarrow> db \<Rightarrow> db" where
  "delete_reminder_from_db i d = d\<lparr>reminders := filter (\<lambda>r. rem_id r \<noteq> i) (reminders d)\<rparr>"

text \<open>\<^verbatim>\<open>UPDATE reminders SET notified = 1 WHERE id = ?\<close>: no row for the id is not an error.\<close>

definition mark_reminder_notified :: "int \<Rightarrow> db \<Rightarrow> db" where
  "mark_reminder_notified i d =
     d\<lparr>reminders := map (\<lambda>r. if rem_id r = i then r\<lparr>notified := 1\<rparr> else r) (reminders d)\<rparr>"

text \<open>
  The flag as the program reads it (\<^verbatim>\<open>"Yes" if r["notified"] else "No"\<close>): any value
  but 0 is "fired".
\<close>

definition fired :: "reminder \<Rightarrow> bool" where
  "fired r = (notified r \<noteq> 0)"

text \<open>
  What the table's declaration, AUTOINCREMENT and the two statements that write the flag
  guarantee: ids are a primary key, none exceeds the counter, and the flag is 0 or 1.
\<close>

definition wf_db :: "db \<Rightarrow> bool" where
  "wf_db d = (distinct (map rem_id (reminders d)) \<and>
              list_all (\<lambda>r. rem_id r \<le> sqlite_sequence d) (reminders d) \<and>
              list_all (\<lambda>r. notified r = 0 \<or> notified r = 1) (reminders d))"

section \<open>Date and time\<close>

text \<open>
  A naive \<^verbatim>\<open>datetime\<close>: (year, month, day, hour, minute, second, microsecond).
  Python compares two of them as these tuples, lexicographically.
\<close>

type_synonym datetime = "nat \<times> nat \<times> nat \<times> nat \<times> nat \<times> nat \<times> nat"

subsection \<open>The format \<^verbatim>\<open>%Y-%m-%d %H:%M\<close> on ASCII text\<close>

text \<open>
  A model of the library call on ASCII text, used to run the program on concrete rows.
  Outside ASCII the library accepts more than this model (Unicode decimal digits, Unicode
  white space); the general statements about the loop and the form take the parser as a
  parameter and do not depend on the model.
  \<^verbatim>\<open>_strptime\<close> turns the format into the regular expression
  \<^verbatim>\<open>(?P<Y>\d\d\d\d)-(?P<m>1[0-2]|0[1-9]|[1-9])-(?P<d>3[0-1]|[1-2]\d|0[1-9]|[1-9]| [1-9])\s+(?P<H>2[0-3]|[0-1]\d|\d):(?P<M>[0-5]\d|\d)\<close>,
  matches it at the start of the text, refuses text left over after the match, and builds
  the date, which refuses year 0 and a day the month does not have. A matcher returns every
  way to match, the regular expression's first choice first, with the text that remains.
\<close>

definition isdigit :: "char \<Rightarrow> bool" where
  "isdigit c = (CHR ''0'' \<le> c \<and> c \<le> CHR ''9'')"

definition in_range :: "char \<Rightarrow> char \<Rightarrow> char \<Rightarrow> bool" where
  "in_range lo hi c = (lo \<le> c \<and> c \<le> hi)"

definition isspace :: "char \<Rightarrow> bool" where
  "isspace c = (c = CHR '' '' \<or> in_range (CHR 0x09) (CHR 0x0D) c \<or> in_range (CHR 0x1C) (CHR 0x1F) c)"

definition digit_val :: "char \<Rightarrow> nat" where
  "digit_val c = of_char c - 48"

definition two :: "(char \<Rightarrow> bool) \<Rightarrow> (char \<Rightarrow> bool) \<Rightarrow> string \<Rightarrow> (nat \<times> string) list" where
  "two p q s =
     (case s of
        a # b # t \<Rightarrow> if p a \<and> q b then [(10 * digit_val a + digit_val b, t)] else []
      | _ \<Rightarrow> [])"

definition one :: "(char \<Rightarrow> bool) \<Rightarrow> string \<Rightarrow> (nat \<times> string) list" where
  "one p s = (case s of a # t \<Rightarrow> if p a then [(digit_val a, t)] else [] | _ \<Rightarrow> [])"

definition lit :: "char \<Rightarrow> string \<Rightarrow> string list" where
  "lit c s = (case s of a # t \<Rightarrow> if a = c then [t] else [] | _ \<Rightarrow> [])"

fun re_Y :: "string \<Rightarrow> (nat \<times> string) list" where
  "re_Y (a # b # c # e # t) =
     (if isdigit a \<and> isdigit b \<and> isdigit c \<and> isdigit e
      then [(1000 * digit_val a + 100 * digit_val b + 10 * digit_val c + digit_val e, t)]
      else [])"
| "re_Y _ = []"

definition re_m :: "string \<Rightarrow> (nat \<times> string) list" where
  "re_m s = two (in_range (CHR ''1'') (CHR ''1'')) (in_range (CHR ''0'') (CHR ''2'')) s
          @ two (in_range (CHR ''0'') (CHR ''0'')) (in_range (CHR ''1'') (CHR ''9'')) s
          @ one (in_range (CHR ''1'') (CHR ''9'')) s"

definition re_d :: "string \<Rightarrow> (nat \<times> string) list" where
  "re_d s = two (in_range (CHR ''3'') (CHR ''3'')) (in_range (CHR ''0'') (CHR ''1'')) s
          @ two (in_range (CHR ''1'') (CHR ''2'')) isdigit s
          @ two (in_range (CHR ''0'') (CHR ''0'')) (in_range (CHR ''1'') (CHR ''9'')) s
          @ one (in_range (CHR ''1'') (CHR ''9'')) s
          @ concat (map (one (in_range (CHR ''1'') (CHR ''9''))) (lit (CHR '' '') s))"

text \<open>\<^verbatim>\<open>\s+\<close>: one or more white space characters, the longest run first.\<close>

fun re_s :: "string \<Rightarrow> string list" where
  "re_s [] = []"
| "re_s (a # t) = (if isspace a then re_s t @ [t] else [])"

definition re_H :: "string \<Rightarrow> (nat \<times> string) list" where
  "re_H s = two (in_range (CHR ''2'') (CHR ''2'')) (in_range (CHR ''0'') (CHR ''3'')) s
          @ two (in_range (CHR ''0'') (CHR ''1'')) isdigit s
          @ one isdigit s"

definition re_M :: "string \<Rightarrow> (nat \<times> string) list" where
  "re_M s = two (in_range (CHR ''0'') (CHR ''5'')) isdigit s @ one isdigit s"

definition format_regex_match :: "string \<Rightarrow> ((nat \<times> nat \<times> nat \<times> nat \<times> nat) \<times> string) list" where
  "format_regex_match s =
     [((Y, m, dd, H, M), t9).
        (Y, t1) \<leftarrow> re_Y s, t2 \<leftarrow> lit (CHR ''-'') t1,
        (m, t3) \<leftarrow> re_m t2, t4 \<leftarrow> lit (CHR ''-'') t3,
        (dd, t5) \<leftarrow> re_d t4, t6 \<leftarrow> re_s t5,
        (H, t7) \<leftarrow> re_H t6, t8 \<leftarrow> lit (CHR '':'') t7,
        (M, t9) \<leftarrow> re_M t8]"

definition is_leap :: "nat \<Rightarrow> bool" where
  "is_leap y = (y mod 4 = 0 \<and> (y mod 100 \<noteq> 0 \<or> y mod 400 = 0))"

definition days_in_month :: "nat \<Rightarrow> nat \<Rightarrow> nat" where
  "days_in_month y m =
     (if m = 2 then (if is_leap y then 29 else 28)
      else if m = 4 \<or> m = 6 \<or> m = 9 \<or> m = 11 then 30 else 31)"

definition strptime_Ymd_HM :: "string \<Rightarrow> datetime option" where
  "strptime_Ymd_HM s =
     (case format_regex_match s of
        [] \<Rightarrow> None
      | ((Y, m, dd, H, M), rest) # _ \<Rightarrow>
          if rest \<noteq> [] then None
          else if Y < 1 \<or> days_in_month Y m < dd then None
          else Some (Y, m, dd, H, M, 0, 0))"

section \<open>The reminder background loop\<close>

text \<open>
  The state the loop works on: the database, and the calls handed to \<^verbatim>\<open>wx.CallAfter\<close>
  so far, each holding the row it was created with (\<^verbatim>\<open>rem=r\<close>), oldest first.

  \<^verbatim>\<open>strptime\<close> stands for \<^verbatim>\<open>datetime.datetime.strptime(_, "%Y-%m-%d %H:%M")\<close>,
  with \<open>None\<close> for the exception that the bare \<^verbatim>\<open>except: continue\<close> swallows;
  \<^verbatim>\<open>now\<close> is the clock reading of the cycle.
\<close>

type_synonym state = "db \<times> reminder list"

fun check_rows :: "(string \<Rightarrow> datetime option) \<Rightarrow> datetime \<Rightarrow> reminder list \<Rightarrow> state \<Rightarrow> state" where
  "check_rows strptime now [] s = s"
| "check_rows strptime now (r # rows) (d, q) =
     (case strptime (remind_datetime r) of
        None \<Rightarrow> check_rows strptime now rows (d, q)
      | Some rem_dt \<Rightarrow>
          if now \<ge> rem_dt
          then check_rows strptime now rows (mark_reminder_notified (rem_id r) d, q @ [r])
          else check_rows strptime now rows (d, q))"

text \<open>
  One pass of the body of \<^verbatim>\<open>while True\<close>: read the clock, fetch the pending rows, scan.
  The outer \<^verbatim>\<open>except Exception\<close> would end the pass early when a store call raises,
  which the reliable store of this model never does; the sleep between passes changes
  nothing in the state.
\<close>

definition reminder_check_cycle :: "(string \<Rightarrow> datetime option) \<Rightarrow> datetime \<Rightarrow> state \<Rightarrow> state" where
  "reminder_check_cycle strptime now s =
     check_rows strptime now (get_reminders_from_db False (fst s)) s"

text \<open>
  \<^verbatim>\<open>reminder_check_loop\<close> never returns; the model runs it for as many cycles as there
  are clock readings.
\<close>

fun reminder_check_loop :: "(string \<Rightarrow> datetime option) \<Rightarrow> datetime list \<Rightarrow> state \<Rightarrow> state" where
  "reminder_check_loop strptime [] s = s"
| "reminder_check_loop strptime (now # nows) s =
     reminder_check_loop strptime nows (reminder_check_cycle strptime now s)"

text \<open>
  The same scan in a process that dies after \<open>n\<close> of its calls with an effect
  (\<^verbatim>\<open>mark_reminder_notified\<close>, \<^verbatim>\<open>wx.CallAfter\<close>) have returned: what is then on
  disk and what has reached the user interface.
\<close>

fun check_rows_killed ::
  "(string \<Rightarrow> datetime option) \<Rightarrow> datetime \<Rightarrow> nat \<Rightarrow> reminder list \<Rightarrow> state \<Rightarrow> state" where
  "check_rows_killed strptime now n [] s = s"
| "check_rows_killed strptime now n (r # rows) (d, q) =
     (case strptime (remind_datetime r) of
        None \<Rightarrow> check_rows_killed strptime now n rows (d, q)
      | Some rem_dt \<Rightarrow>
          if now \<ge> rem_dt
          then (case n of
                  0 \<Rightarrow> (d, q)
                | Suc 0 \<Rightarrow> (mark_reminder_notified (rem_id r) d, q)
                | Suc (Suc k) \<Rightarrow>
                    check_rows_killed strptime now k rows
                      (mark_reminder_notified (rem_id r) d, q @ [r]))
          else check_rows_killed strptime now n rows (d, q))"

definition reminder_check_cycle_killed ::
  "(string \<Rightarrow> datetime option) \<Rightarrow> datetime \<Rightarrow> nat \<Rightarrow> state \<Rightarrow> state" where
  "reminder_check_cycle_killed strptime now n s =
     check_rows_killed strptime now n (get_reminders_from_db False (fst s)) s"

section \<open>The handlers of the Medicine Reminder tab\<close>

text \<open>
  \<^verbatim>\<open>HealthApp.on_add_reminder\<close>, from the point where the four fields have been read and
  stripped (\<^verbatim>\<open>name\<close>, \<^verbatim>\<open>dose\<close>, \<^verbatim>\<open>dt_str\<close>, \<^verbatim>\<open>note\<close>). The result is the
  message box shown (text, caption) and the database.
\<close>

definition on_add_reminder ::
  "(string \<Rightarrow> datetime option) \<Rightarrow> string \<Rightarrow> string \<Rightarrow> string \<Rightarrow> string \<Rightarrow> db
     \<Rightarrow> (string \<times> string) \<times> db" where
  "on_add_reminder strptime name dos dt_str nt d =
     (if name = [] \<or> dt_str = []
      then ((''Enter medicine name and date/time.'', ''Error''), d)
      else case strptime dt_str of
             None \<Rightarrow> ((''Date/time must be in format YYYY-MM-DD HH:MM'', ''Error''), d)
           | Some _ \<Rightarrow> ((''Reminder added.'', ''OK''), add_reminder_to_db name dos dt_str nt d))"

text \<open>
  What can happen to the table while the application runs: the user adds a reminder (either
  form ends in \<^verbatim>\<open>add_reminder_to_db\<close>), the user deletes one
  (\<^verbatim>\<open>on_delete_reminder\<close> calls \<^verbatim>\<open>delete_reminder_from_db\<close>), or the background
  thread runs a cycle.
\<close>

datatype action =
  Add string string string string
| Delete int
| Poll datetime

fun step :: "(string \<Rightarrow> datetime option) \<Rightarrow> action \<Rightarrow> state \<Rightarrow> state" where
  "step strptime (Add name dos dt_str nt) (d, q) = (add_reminder_to_db name dos dt_str nt d, q)"
| "step strptime (Delete i) (d, q) = (delete_reminder_from_db i d, q)"
| "step strptime (Poll now) s = reminder_check_cycle strptime now s"

fun run :: "(string \<Rightarrow> datetime option) \<Rightarrow> action list \<Rightarrow> state \<Rightarrow> state" where
  "run strptime [] s = s"
| "run strptime (a # as) s = run strptime as (step strptime a s)"

section \<open>The store contract as the specification words it\<close>

text \<open>
  The three store operations of the specification that may fail, written from its
  sentences, to be compared with the helpers above.
\<close>

datatype error = ValidationError | NotFoundError


definition spec_markFired :: "int \<Rightarrow> db \<Rightarrow> error + db" where
  "spec_markFired i d =
     (if i \<notin> set (map rem_id (reminders d)) then Inl NotFoundError
      else Inr (d\<lparr>reminders :=
                  map (\<lambda>r. if rem_id r = i then r\<lparr>notified := 1\<rparr> else r) (reminders d)\<rparr>))"

definition spec_delete :: "int \<Rightarrow> db \<Rightarrow> error + db" where
  "spec_delete i d =
     (if i \<notin> set (map rem_id (reminders d)) then Inl NotFoundError
      else Inr (d\<lparr>reminders := filter (\<lambda>r. rem_id r \<noteq> i) (reminders d)\<rparr>))"

section \<open>Auxiliary notions\<close>

text \<open>A row is due at \<open>now\<close> when its text parses to a time not after \<open>now\<close>.\<close>

definition due :: "(string \<Rightarrow> datetime option) \<Rightarrow> datetime \<Rightarrow> reminder \<Rightarrow> bool" where
  "due strptime now r =
     (case strptime (remind_datetime r) of None \<Rightarrow> False | Some rem_dt \<Rightarrow> now \<ge> rem_dt)"

text \<open>The calls in the queue that are for the reminder with a given id.\<close>

definition popups_for :: "int \<Rightarrow> reminder list \<Rightarrow> reminder list" where
  "popups_for i q = filter (\<lambda>x. rem_id x = i) q"

text \<open>The rows a cycle acts on: the pending rows that are due, in the order fetched.\<close>

definition fetched :: "(string \<Rightarrow> datetime option) \<Rightarrow> datetime \<Rightarrow> db \<Rightarrow> reminder list" where
  "fetched strptime now d = filter (due strptime now) (get_reminders_from_db False d)"

text \<open>
  An id is settled when it has been handed out and no unfired row carries it: the row is
  fired, or it has been deleted.
\<close>

definition settled :: "int \<Rightarrow> db \<Rightarrow> bool" where
  "settled i d = (i \<le> sqlite_sequence d \<and> (\<forall>r \<in> set (reminders d). rem_id r = i \<longrightarrow> fired r))"

text \<open>
  The invariant of the queue of popups: no id twice, and every id in it is settled.
\<close>

definition queue_ok :: "state \<Rightarrow> bool" where
  "queue_ok s = (wf_db (fst s) \<and> distinct (map rem_id (snd s)) \<and>
                 (\<forall>x \<in> set (snd s). settled (rem_id x) (fst s)))"

section \<open>A worked example\<close>

text \<open>
  The scenario of the specification: on a fresh database the reminder
  ("Aspirin", "1 tablet", "2024-01-01 08:00", "") is created.
\<close>

definition aspirin :: reminder where
  "aspirin = \<lparr>rem_id = 1, med_name = ''Aspirin'', dose = ''1 tablet'',
               remind_datetime = ''2024-01-01 08:00'', notified = 0, note_text = []\<rparr>"

definition aspirin_db :: db where
  "aspirin_db = add_reminder_to_db ''Aspirin'' ''1 tablet'' ''2024-01-01 08:00'' [] init_db"

text \<open>A row whose time text is not in the format, written by the store helper directly.\<close>

definition vague :: reminder where
  "vague = \<lparr>rem_id = 1, med_name = ''Aspirin'', dose = ''1 tablet'',
             remind_datetime = ''tomorrow 8am'', notified = 0, note_text = []\<rparr>"

definition vague_db :: db where
  "vague_db = add_reminder_to_db ''Aspirin'' ''1 tablet'' ''tomorrow 8am'' [] init_db"

text \<open>
  Two reminders entered through the form of the Medicine Reminder tab, first one for
  1 January 2024, 08:05, typed without leading zeros, then one for 2 January 2024, 08:00.
\<close>

definition unpadded_early :: reminder where
  "unpadded_early = \<lparr>rem_id = 1, med_name = ''Aspirin'', dose = ''1 tablet'',
                      remind_datetime = ''2024-1-1 8:5'', notified = 0, note_text = []\<rparr>"

definition padded_late :: reminder where
  "padded_late = \<lparr>rem_id = 2, med_name = ''Ibuprofen'', dose = ''200 mg'',
                   remind_datetime = ''2024-01-02 08:00'', notified = 0, note_text = []\<rparr>"

definition two_forms_db :: db where
  "two_forms_db =
     snd (on_add_reminder strptime_Ymd_HM ''Ibuprofen'' ''200 mg'' ''2024-01-02 08:00'' []
       (snd (on_add_reminder strptime_Ymd_HM ''Aspirin'' ''1 tablet'' ''2024-1-1 8:5'' []
          init_db)))"

section \<open>Basic facts about the store and the scan\<close>

lemma reminders_mark:
  "reminders (mark_reminder_notified i d) =
     map (\<lambda>r. if rem_id r = i then r\<lparr>notified := 1\<rparr> else r) (reminders d)"
  by (simp add: mark_reminder_notified_def)

lemma sequence_mark: "sqlite_sequence (mark_reminder_notified i d) = sqlite_sequence d"
  by (simp add: mark_reminder_notified_def)

lemma reminders_fold_mark:
  "reminders (fold mark_reminder_notified ids d) =
     map (\<lambda>r. if rem_id r \<in> set ids then r\<lparr>notified := 1\<rparr> else r) (reminders d)"
proof (induction ids arbitrary: d)
  case Nil
  show ?case by simp
next
  case (Cons i ids)
  show ?case
    by (simp add: Cons.IH reminders_mark comp_def)
qed

lemma sequence_fold_mark: "sqlite_sequence (fold mark_reminder_notified ids d) = sqlite_sequence d"
  by (induction ids arbitrary: d) (simp_all add: sequence_mark)

lemma check_rows_closed:
  "check_rows strptime now rows (d, q) =
     (fold mark_reminder_notified (map rem_id (filter (due strptime now) rows)) d,
      q @ filter (due strptime now) rows)"
  by (induction rows arbitrary: d q) (simp_all add: due_def split: option.splits)

lemma cycle_closed:
  "reminder_check_cycle strptime now (d, q) =
     (fold mark_reminder_notified (map rem_id (fetched strptime now d)) d,
      q @ fetched strptime now d)"
  by (simp add: reminder_check_cycle_def check_rows_closed fetched_def)

lemma set_fetched:
  "set (fetched strptime now d) = {r \<in> set (reminders d). notified r = 0 \<and> due strptime now r}"
  by (auto simp: fetched_def get_reminders_from_db_def)

lemma distinct_fetched:
  "distinct (map rem_id (reminders d)) \<Longrightarrow> distinct (map rem_id (fetched strptime now d))"
  unfolding fetched_def get_reminders_from_db_def
  by (simp add: distinct_map_filter distinct_map inj_on_def)


lemma filter_key_singleton:
  "distinct (map f xs) \<Longrightarrow> x \<in> set xs \<Longrightarrow> filter (\<lambda>y. f y = f x) xs = [x]"
proof (induction xs)
  case Nil
  then show ?case by simp
next
  case (Cons a xs)
  show ?case
  proof (cases "a = x")
    case True
    have "filter (\<lambda>y. f y = f x) xs = []"
      using Cons.prems(1) True by (simp add: filter_empty_conv) (metis imageI)
    with True show ?thesis by simp
  next
    case False
    with Cons.prems have "x \<in> set xs" and "f a \<noteq> f x" and "distinct (map f xs)"
      by auto
    with Cons.IH show ?thesis by simp
  qed
qed

lemma same_id_same_row:
  "distinct (map rem_id rs) \<Longrightarrow> x \<in> set rs \<Longrightarrow> y \<in> set rs \<Longrightarrow> rem_id x = rem_id y \<Longrightarrow> x = y"
  by (meson distinct_map inj_onD)

lemma wf_db_distinct: "wf_db d \<Longrightarrow> distinct (map rem_id (reminders d))"
  by (simp add: wf_db_def)

lemma ids_mark: "map rem_id (reminders (mark_reminder_notified i d)) = map rem_id (reminders d)"
  by (auto simp: mark_reminder_notified_def)

lemma wf_db_mark:
  assumes "wf_db d"
  shows "wf_db (mark_reminder_notified i d)"
proof -
  have "list_all (\<lambda>r. rem_id r \<le> sqlite_sequence d) (reminders (mark_reminder_notified i d))"
    using assms by (auto simp: wf_db_def mark_reminder_notified_def list_all_iff)
  moreover have "list_all (\<lambda>r. notified r = 0 \<or> notified r = 1) (reminders (mark_reminder_notified i d))"
    using assms by (auto simp: wf_db_def mark_reminder_notified_def list_all_iff)
  ultimately show ?thesis
    using assms by (simp add: wf_db_def ids_mark sequence_mark)
qed

lemma wf_db_fold_mark: "wf_db d \<Longrightarrow> wf_db (fold mark_reminder_notified ids d)"
  by (induction ids arbitrary: d) (simp_all add: wf_db_mark)

lemma wf_db_cycle: "wf_db d \<Longrightarrow> wf_db (fst (reminder_check_cycle strptime now (d, q)))"
  by (simp add: cycle_closed wf_db_fold_mark)

lemma wf_db_add: "wf_db d \<Longrightarrow> wf_db (add_reminder_to_db n ds t nt d)"
  by (fastforce simp: wf_db_def add_reminder_to_db_def Let_def list_all_iff)

lemma wf_db_delete: "wf_db d \<Longrightarrow> wf_db (delete_reminder_from_db i d)"
  by (auto simp: wf_db_def delete_reminder_from_db_def list_all_iff distinct_map_filter)

lemma wf_db_init: "wf_db init_db"
  by (simp add: wf_db_def init_db_def)

lemma fetched_not_due:
  assumes "distinct (map rem_id (reminders d))" "r \<in> set (reminders d)" "\<not> due strptime now r"
  shows "rem_id r \<notin> rem_id ` set (fetched strptime now d)"
proof
  assume "rem_id r \<in> rem_id ` set (fetched strptime now d)"
  then obtain x where x: "x \<in> set (fetched strptime now d)" "rem_id x = rem_id r"
    by auto
  then have "x \<in> set (reminders d)" "due strptime now x"
    by (simp_all add: set_fetched)
  with assms x show False
    using same_id_same_row by blast
qed

lemma cycle_not_due:
  assumes wf: "wf_db d" and mem: "r \<in> set (reminders d)" and nd: "\<not> due strptime now r"
  shows "r \<in> set (reminders (fst (reminder_check_cycle strptime now (d, q))))"
    and "popups_for (rem_id r) (snd (reminder_check_cycle strptime now (d, q))) = popups_for (rem_id r) q"
proof -
  let ?N = "fetched strptime now d"
  have notin: "rem_id r \<notin> rem_id ` set ?N"
    using wf_db_distinct[OF wf] mem nd by (rule fetched_not_due)
  have rows: "reminders (fst (reminder_check_cycle strptime now (d, q))) =
      map (\<lambda>x. if rem_id x \<in> set (map rem_id ?N) then x\<lparr>notified := 1\<rparr> else x) (reminders d)"
    by (simp add: cycle_closed reminders_fold_mark)
  show "r \<in> set (reminders (fst (reminder_check_cycle strptime now (d, q))))"
    unfolding rows using mem notin by force
  have "filter (\<lambda>x. rem_id x = rem_id r) ?N = []"
    using notin by (simp add: filter_empty_conv) (metis imageI)
  then show "popups_for (rem_id r) (snd (reminder_check_cycle strptime now (d, q))) = popups_for (rem_id r) q"
    by (simp add: cycle_closed popups_for_def)
qed

lemma loop_not_due:
  assumes "wf_db d" "r \<in> set (reminders d)" "strptime (remind_datetime r) = None"
  shows "r \<in> set (reminders (fst (reminder_check_loop strptime nows (d, q))))
       \<and> popups_for (rem_id r) (snd (reminder_check_loop strptime nows (d, q))) = popups_for (rem_id r) q"
  using assms
proof (induction nows arbitrary: d q)
  case Nil
  then show ?case by simp
next
  case (Cons now nows)
  obtain d' q' where s': "reminder_check_cycle strptime now (d, q) = (d', q')"
    by (cases "reminder_check_cycle strptime now (d, q)")
  have nd: "\<not> due strptime now r"
    using Cons.prems(3) by (simp add: due_def)
  have wf': "wf_db d'"
    using wf_db_cycle[OF Cons.prems(1), of strptime now q] s' by simp
  have mem': "r \<in> set (reminders d')"
    using cycle_not_due(1)[OF Cons.prems(1,2) nd, of q] s' by simp
  have pop': "popups_for (rem_id r) q' = popups_for (rem_id r) q"
    using cycle_not_due(2)[OF Cons.prems(1,2) nd, of q] s' by simp
  from Cons.IH[OF wf' mem' Cons.prems(3), of q'] pop' s'
  show ?case by simp
qed

lemma mark_absent: "i \<notin> set (map rem_id (reminders d)) \<Longrightarrow> mark_reminder_notified i d = d"
proof -
  assume a: "i \<notin> set (map rem_id (reminders d))"
  have "map (\<lambda>r. if rem_id r = i then r\<lparr>notified := 1\<rparr> else r) (reminders d) = reminders d"
    using a by (intro map_idI) auto
  then show ?thesis
    by (simp add: mark_reminder_notified_def)
qed

lemma mark_fired_already:
  assumes "wf_db d" "\<forall>r \<in> set (reminders d). rem_id r = i \<longrightarrow> fired r"
  shows "mark_reminder_notified i d = d"
proof -
  have "map (\<lambda>r. if rem_id r = i then r\<lparr>notified := 1\<rparr> else r) (reminders d) = reminders d"
  proof (intro map_idI)
    fix r assume r: "r \<in> set (reminders d)"
    show "(if rem_id r = i then r\<lparr>notified := 1\<rparr> else r) = r"
    proof (cases "rem_id r = i")
      case True
      with assms r have "notified r = 1"
        by (auto simp: wf_db_def list_all_iff fired_def)
      then show ?thesis by simp
    next
      case False
      then show ?thesis by simp
    qed
  qed
  then show ?thesis
    by (simp add: mark_reminder_notified_def)
qed

lemma mark_idem: "mark_reminder_notified i (mark_reminder_notified i d) = mark_reminder_notified i d"
proof -
  let ?f = "\<lambda>r. if rem_id r = i then r\<lparr>notified := 1\<rparr> else r"
  have "map ?f (map ?f xs) = map ?f xs" for xs :: "reminder list"
    by (induction xs) auto
  then show ?thesis
    by (simp add: mark_reminder_notified_def)
qed

lemma delete_absent: "i \<notin> set (map rem_id (reminders d)) \<Longrightarrow> delete_reminder_from_db i d = d"
proof -
  assume a: "i \<notin> set (map rem_id (reminders d))"
  have "filter (\<lambda>r. rem_id r \<noteq> i) (reminders d) = reminders d"
    using a by (auto simp: filter_id_conv)
  then show ?thesis
    by (simp add: delete_reminder_from_db_def)
qed

lemma mark_sets_flag:
  assumes "r \<in> set (reminders (mark_reminder_notified i d))" "rem_id r = i"
  shows "notified r = 1"
proof -
  from assms(1) obtain x where x: "x \<in> set (reminders d)"
      and r: "r = (if rem_id x = i then x\<lparr>notified := 1\<rparr> else x)"
    unfolding reminders_mark set_map by (rule imageE)
  show ?thesis
  proof (cases "rem_id x = i")
    case True
    with r show ?thesis by simp
  next
    case False
    with r assms(2) show ?thesis by simp
  qed
qed

lemma mark_keeps_others:
  assumes "r \<in> set (reminders d)" "rem_id r \<noteq> i"
  shows "r \<in> set (reminders (mark_reminder_notified i d))"
proof -
  have "r = (\<lambda>r. if rem_id r = i then r\<lparr>notified := 1\<rparr> else r) r"
    using assms(2) by simp
  then show ?thesis
    unfolding reminders_mark set_map using assms(1) by (rule image_eqI)
qed

lemma reminders_delete:
  "reminders (delete_reminder_from_db i d) = filter (\<lambda>r. rem_id r \<noteq> i) (reminders d)"
  by (simp add: delete_reminder_from_db_def)

lemma get_reminders_delete:
  "get_reminders_from_db b (delete_reminder_from_db i d)
       = filter (\<lambda>r. rem_id r \<noteq> i) (get_reminders_from_db b d)"
proof -
  have sw: "filter (\<lambda>r. notified r = 0) (filter (\<lambda>r. rem_id r \<noteq> i) (reminders d))
       = filter (\<lambda>r. rem_id r \<noteq> i) (filter (\<lambda>r. notified r = 0) (reminders d))"
    by (simp add: conj_commute)
  show ?thesis
    by (cases b) (simp_all only: get_reminders_from_db_def reminders_delete
        filter_sort sw if_True if_False)
qed

lemma fetched_pending:
  "x \<in> set (fetched strptime now d) \<Longrightarrow> x \<in> set (reminders d) \<and> \<not> fired x"
  by (simp add: set_fetched fired_def)

lemma cycle_skips_fired:
  assumes "\<forall>r \<in> set (reminders d). rem_id r = i \<longrightarrow> fired r"
  shows "popups_for i (snd (reminder_check_cycle strptime now (d, q))) = popups_for i q"
proof -
  have "\<forall>x \<in> set (fetched strptime now d). rem_id x \<noteq> i"
    using assms fetched_pending by blast
  then have "filter (\<lambda>x. rem_id x = i) (fetched strptime now d) = []"
    by (simp add: filter_empty_conv)
  then show ?thesis
    by (simp add: cycle_closed popups_for_def)
qed

lemma fold_mark_row:
  assumes "r \<in> set (reminders (fold mark_reminder_notified ids d))"
  obtains x where "x \<in> set (reminders d)" "rem_id x = rem_id r"
    "r = (if rem_id x \<in> set ids then x\<lparr>notified := 1\<rparr> else x)"
proof -
  from assms obtain x where x: "x \<in> set (reminders d)"
      and r: "r = (if rem_id x \<in> set ids then x\<lparr>notified := 1\<rparr> else x)"
    unfolding reminders_fold_mark set_map by (rule imageE)
  have "rem_id x = rem_id r"
    unfolding r by simp
  with x r that show thesis by blast
qed

lemma fold_mark_fired:
  assumes "r \<in> set (reminders (fold mark_reminder_notified ids d))" "rem_id r \<in> set ids"
  shows "fired r"
proof -
  from assms(1) obtain x where id: "rem_id x = rem_id r"
    and r: "r = (if rem_id x \<in> set ids then x\<lparr>notified := 1\<rparr> else x)"
    by (rule fold_mark_row)
  have "rem_id x \<in> set ids"
    using assms(2) by (simp only: id)
  then have "r = x\<lparr>notified := 1\<rparr>"
    using r by (simp only: if_True)
  then have "notified r = 1"
    by simp
  then show ?thesis
    by (simp add: fired_def)
qed

lemma fold_mark_keeps_fired:
  assumes "r \<in> set (reminders (fold mark_reminder_notified ids d))"
    and "\<forall>x \<in> set (reminders d). rem_id x = rem_id r \<longrightarrow> fired x"
  shows "fired r"
proof -
  from assms(1) obtain x where x: "x \<in> set (reminders d)" "rem_id x = rem_id r"
    "r = (if rem_id x \<in> set ids then x\<lparr>notified := 1\<rparr> else x)"
    by (rule fold_mark_row)
  with assms(2) have "fired x" by blast
  with x(3) show ?thesis by (simp add: fired_def)
qed

lemma settled_fold_mark:
  assumes "settled i d"
  shows "settled i (fold mark_reminder_notified ids d)"
proof -
  from assms have le: "i \<le> sqlite_sequence d"
    and f: "\<forall>x \<in> set (reminders d). rem_id x = i \<longrightarrow> fired x"
    by (simp_all add: settled_def)
  have "\<forall>r \<in> set (reminders (fold mark_reminder_notified ids d)). rem_id r = i \<longrightarrow> fired r"
    using fold_mark_keeps_fired f by blast
  with le show ?thesis
    by (simp add: settled_def sequence_fold_mark)
qed

lemma settled_cycle: "settled i d \<Longrightarrow> settled i (fst (reminder_check_cycle strptime now (d, q)))"
  by (simp add: cycle_closed settled_fold_mark)

lemma settled_add: "settled i d \<Longrightarrow> settled i (add_reminder_to_db n ds t nt d)"
  by (auto simp: settled_def add_reminder_to_db_def Let_def)

lemma settled_delete: "settled i d \<Longrightarrow> settled i (delete_reminder_from_db j d)"
  by (simp add: settled_def delete_reminder_from_db_def)

lemma settled_step:
  assumes "settled i (fst s)"
  shows "settled i (fst (step strptime a s))"
    and "popups_for i (snd (step strptime a s)) = popups_for i (snd s)"
proof -
  obtain d q where s: "s = (d, q)" by (cases s)
  from assms s have st: "settled i d" by simp
  show "settled i (fst (step strptime a s))"
    unfolding s using st by (cases a) (simp_all add: settled_add settled_delete settled_cycle)
  have f: "\<forall>r \<in> set (reminders d). rem_id r = i \<longrightarrow> fired r"
    using st by (simp add: settled_def)
  show "popups_for i (snd (step strptime a s)) = popups_for i (snd s)"
    unfolding s using cycle_skips_fired[OF f] by (cases a) simp_all
qed

lemma settled_run:
  "settled i (fst s) \<Longrightarrow>
     settled i (fst (run strptime acts s)) \<and>
     popups_for i (snd (run strptime acts s)) = popups_for i (snd s)"
proof (induction acts arbitrary: s)
  case Nil
  then show ?case by simp
next
  case (Cons a acts)
  from settled_step[OF Cons.prems, of strptime a]
  have 1: "settled i (fst (step strptime a s))"
    and 2: "popups_for i (snd (step strptime a s)) = popups_for i (snd s)"
    by blast+
  from Cons.IH[OF 1] 2 show ?case by simp
qed

lemma fired_settled:
  assumes "wf_db d" "r \<in> set (reminders d)" "fired r"
  shows "settled (rem_id r) d"
proof -
  have "rem_id r \<le> sqlite_sequence d"
    using assms(1,2) by (simp add: wf_db_def list_all_iff)
  moreover have "\<forall>x \<in> set (reminders d). rem_id x = rem_id r \<longrightarrow> fired x"
    using same_id_same_row[OF wf_db_distinct[OF assms(1)] _ assms(2)] assms(3) by blast
  ultimately show ?thesis by (simp add: settled_def)
qed

lemma wf_db_step: "wf_db (fst s) \<Longrightarrow> wf_db (fst (step strptime a s))"
proof -
  assume wf: "wf_db (fst s)"
  obtain d q where s: "s = (d, q)" by (cases s)
  from wf s have "wf_db d" by simp
  then show ?thesis
    unfolding s by (cases a) (simp_all add: wf_db_add wf_db_delete wf_db_cycle)
qed

lemma fetched_settled_after:
  assumes wf: "wf_db d" and x: "x \<in> set (fetched strptime now d)"
  shows "settled (rem_id x) (fst (reminder_check_cycle strptime now (d, q)))"
proof -
  have "x \<in> set (reminders d)"
    using x by (simp add: set_fetched)
  then have le: "rem_id x \<le> sqlite_sequence d"
    using wf by (simp add: wf_db_def list_all_iff)
  have "rem_id x \<in> set (map rem_id (fetched strptime now d))"
    using x by simp
  then have "\<forall>r \<in> set (reminders (fold mark_reminder_notified (map rem_id (fetched strptime now d)) d)).
      rem_id r = rem_id x \<longrightarrow> fired r"
    using fold_mark_fired by metis
  with le show ?thesis
    by (simp add: settled_def cycle_closed sequence_fold_mark)
qed

lemma queue_ok_cycle:
  assumes "queue_ok (d, q)"
  shows "queue_ok (reminder_check_cycle strptime now (d, q))"
proof -
  let ?F = "fetched strptime now d"
  let ?d' = "fst (reminder_check_cycle strptime now (d, q))"
  from assms have wf: "wf_db d" and dq: "distinct (map rem_id q)"
    and sq: "\<forall>x \<in> set q. settled (rem_id x) d"
    by (simp_all add: queue_ok_def)
  have snd: "snd (reminder_check_cycle strptime now (d, q)) = q @ ?F"
    by (simp add: cycle_closed)
  have wf': "wf_db ?d'"
    using wf by (rule wf_db_cycle)
  have dF: "distinct (map rem_id ?F)"
    using wf_db_distinct[OF wf] by (rule distinct_fetched)
  have disj: "rem_id ` set q \<inter> rem_id ` set ?F = {}"
  proof -
    have "rem_id x \<noteq> rem_id y" if "x \<in> set q" "y \<in> set ?F" for x y
    proof
      assume e: "rem_id x = rem_id y"
      from sq that(1) have "\<forall>r \<in> set (reminders d). rem_id r = rem_id x \<longrightarrow> fired r"
        by (simp add: settled_def)
      moreover from that(2) have "y \<in> set (reminders d)" "\<not> fired y"
        using fetched_pending by blast+
      ultimately show False
        using e by metis
    qed
    then show ?thesis by blast
  qed
  have d': "distinct (map rem_id (q @ ?F))"
    using dq dF disj by simp
  have s': "\<forall>x \<in> set (q @ ?F). settled (rem_id x) ?d'"
  proof
    fix x assume "x \<in> set (q @ ?F)"
    then consider "x \<in> set q" | "x \<in> set ?F" by auto
    then show "settled (rem_id x) ?d'"
    proof cases
      case 1
      with sq have "settled (rem_id x) d" by blast
      then show ?thesis by (rule settled_cycle)
    next
      case 2
      with wf show ?thesis by (rule fetched_settled_after)
    qed
  qed
  show ?thesis
    unfolding queue_ok_def snd using wf' d' s' by blast
qed

lemma queue_ok_step:
  assumes "queue_ok s"
  shows "queue_ok (step strptime a s)"
proof -
  obtain d q where s: "s = (d, q)" by (cases s)
  from assms s have wf: "wf_db d" and dq: "distinct (map rem_id q)"
    and sq: "\<forall>x \<in> set q. settled (rem_id x) d"
    by (simp_all add: queue_ok_def)
  show ?thesis
  proof (cases a)
    case (Add n ds t nt)
    then show ?thesis
      unfolding s using wf dq sq by (simp add: queue_ok_def wf_db_add settled_add)
  next
    case (Delete j)
    then show ?thesis
      unfolding s using wf dq sq by (simp add: queue_ok_def wf_db_delete settled_delete)
  next
    case (Poll now)
    then show ?thesis
      unfolding s using assms s queue_ok_cycle by simp
  qed
qed

lemma queue_ok_run: "queue_ok s \<Longrightarrow> queue_ok (run strptime acts s)"
  by (induction acts arbitrary: s) (simp_all add: queue_ok_step)

lemma step_row_origin:
  assumes wf: "wf_db d" and r': "r' \<in> set (reminders (fst (step strptime a (d, q))))"
    and le: "rem_id r' \<le> sqlite_sequence d"
  obtains x where "x \<in> set (reminders d)" "rem_id x = rem_id r'"
    "r' = x \<or> (\<exists>now. a = Poll now \<and> rem_id x \<in> set (map rem_id (fetched strptime now d)))"
proof (cases a)
  case (Add n ds t nt)
  with r' have "r' \<in> set (reminders d) \<or> rem_id r' = sqlite_sequence d + 1"
    by (auto simp: add_reminder_to_db_def Let_def)
  with le have "r' \<in> set (reminders d)" by auto
  then show thesis using that by blast
next
  case (Delete j)
  with r' have "r' \<in> set (reminders d)"
    by (simp add: delete_reminder_from_db_def)
  then show thesis using that by blast
next
  case (Poll now)
  with r' have "r' \<in> set (reminders (fold mark_reminder_notified
      (map rem_id (fetched strptime now d)) d))"
    by (simp add: cycle_closed)
  then obtain x where x: "x \<in> set (reminders d)" "rem_id x = rem_id r'"
    "r' = (if rem_id x \<in> set (map rem_id (fetched strptime now d))
           then x\<lparr>notified := 1\<rparr> else x)"
    by (rule fold_mark_row)
  show thesis
  proof (cases "rem_id x \<in> set (map rem_id (fetched strptime now d))")
    case True
    with Poll x(1,2) that show ?thesis by blast
  next
    case False
    with x(3) have "r' = x" by simp
    with x(1,2) that show ?thesis by blast
  qed
qed

lemma flag_set_only_when_due:
  assumes wf: "wf_db d" and r: "r \<in> set (reminders d)" and nf: "\<not> fired r"
    and r': "r' \<in> set (reminders (fst (step strptime a (d, q))))"
    and id: "rem_id r' = rem_id r" and f: "fired r'"
  shows "\<exists>now rem_dt. a = Poll now \<and> strptime (remind_datetime r) = Some rem_dt \<and> rem_dt \<le> now"
proof -
  have le: "rem_id r' \<le> sqlite_sequence d"
    using wf r id by (simp add: wf_db_def list_all_iff)
  from wf r' le obtain x where x: "x \<in> set (reminders d)" "rem_id x = rem_id r'"
    "r' = x \<or> (\<exists>now. a = Poll now \<and> rem_id x \<in> set (map rem_id (fetched strptime now d)))"
    by (rule step_row_origin)
  have xr: "x = r"
    using same_id_same_row[OF wf_db_distinct[OF wf] x(1) r] x(2) id by simp
  with x(3) nf f obtain now where a: "a = Poll now"
    and m: "rem_id r \<in> set (map rem_id (fetched strptime now d))"
    by blast
  from m obtain y where y: "y \<in> set (fetched strptime now d)" "rem_id y = rem_id r"
    by auto
  then have "y \<in> set (reminders d)" "due strptime now y"
    by (simp_all add: set_fetched)
  with y(2) have "due strptime now r"
    using same_id_same_row[OF wf_db_distinct[OF wf] _ r] by blast
  then obtain rem_dt where "strptime (remind_datetime r) = Some rem_dt" "rem_dt \<le> now"
    by (auto simp: due_def split: option.splits)
  with a show ?thesis by blast
qed

lemma check_rows_killed_closed:
  "check_rows_killed strptime now n rows (d, q) =
     (fold mark_reminder_notified
        (map rem_id (take ((n + 1) div 2) (filter (due strptime now) rows))) d,
      q @ take (n div 2) (filter (due strptime now) rows))"
proof (induction rows arbitrary: n d q)
  case Nil
  show ?case by simp
next
  case (Cons r rows)
  show ?case
  proof (cases "strptime (remind_datetime r)")
    case None
    then show ?thesis
      by (simp add: Cons.IH due_def)
  next
    case (Some rem_dt)
    show ?thesis
    proof (cases "rem_dt \<le> now")
      case False
      with Some show ?thesis
        by (simp add: Cons.IH due_def)
    next
      case True
      with Some have due: "due strptime now r"
        by (simp add: due_def)
      show ?thesis
      proof (cases n)
        case 0
        with True Some due show ?thesis by simp
      next
        case (Suc m)
        show ?thesis
        proof (cases m)
          case 0
          with Suc True Some due show ?thesis by simp
        next
          case (Suc k)
          with \<open>n = Suc m\<close> True Some due show ?thesis
            by (simp add: Cons.IH)
        qed
      qed
    qed
  qed
qed

lemma cycle_killed_closed:
  "reminder_check_cycle_killed strptime now n (d, q) =
     (fold mark_reminder_notified (map rem_id (take ((n + 1) div 2) (fetched strptime now d))) d,
      q @ take (n div 2) (fetched strptime now d))"
  by (simp add: reminder_check_cycle_killed_def check_rows_killed_closed fetched_def)

lemma cycle_killed_enough:
  "2 * length (fetched strptime now d) \<le> n \<Longrightarrow>
     reminder_check_cycle_killed strptime now n (d, q) = reminder_check_cycle strptime now (d, q)"
  by (simp add: cycle_killed_closed cycle_closed)

lemma killed_popup_marked:
  assumes x: "x \<in> set (snd (reminder_check_cycle_killed strptime now n (d, [])))"
    and r: "r \<in> set (reminders (fst (reminder_check_cycle_killed strptime now n (d, []))))"
    and id: "rem_id r = rem_id x"
  shows "fired r"
proof -
  let ?F = "fetched strptime now d"
  have "set (take (n div 2) ?F) \<subseteq> set (take ((n + 1) div 2) ?F)"
    by (rule set_take_subset_set_take) simp
  with x have "x \<in> set (take ((n + 1) div 2) ?F)"
    by (auto simp: cycle_killed_closed)
  then have "rem_id r \<in> set (map rem_id (take ((n + 1) div 2) ?F))"
    unfolding id by simp
  moreover from r have "r \<in> set (reminders (fold mark_reminder_notified
      (map rem_id (take ((n + 1) div 2) ?F)) d))"
    by (simp add: cycle_killed_closed)
  ultimately show ?thesis
    by (rule fold_mark_fired[rotated])
qed

lemma killed_popups_distinct:
  assumes "wf_db d"
  shows "distinct (map rem_id (snd (reminder_check_cycle_killed strptime now n (d, []))))"
proof -
  have "distinct (map rem_id (fetched strptime now d))"
    using wf_db_distinct[OF assms] by (rule distinct_fetched)
  then have "distinct (take (n div 2) (map rem_id (fetched strptime now d)))"
    by (rule distinct_take)
  then show ?thesis
    by (simp add: cycle_killed_closed take_map)
qed

lemma killed_between:
  assumes wf: "wf_db d" and odd: "odd n" and lt: "n < 2 * length (fetched strptime now d)"
  shows "popups_for (rem_id (fetched strptime now d ! (n div 2)))
           (snd (reminder_check_cycle_killed strptime now n (d, []))) = []"
    and "\<forall>r \<in> set (reminders (fst (reminder_check_cycle_killed strptime now n (d, [])))).
           rem_id r = rem_id (fetched strptime now d ! (n div 2)) \<longrightarrow> fired r"
proof -
  let ?F = "fetched strptime now d"
  let ?k = "n div 2"
  have k: "?k < length ?F"
    using lt by simp
  have suc: "(n + 1) div 2 = Suc ?k"
    using odd by presburger
  have dF: "distinct (map rem_id ?F)"
    using wf_db_distinct[OF wf] by (rule distinct_fetched)
  have "distinct (take (Suc ?k) (map rem_id ?F))"
    using dF by (rule distinct_take)
  then have "distinct (take ?k (map rem_id ?F) @ [map rem_id ?F ! ?k])"
    using k by (simp add: take_Suc_conv_app_nth)
  then have "rem_id (?F ! ?k) \<notin> set (map rem_id (take ?k ?F))"
    using k by (simp add: take_map)
  then have "filter (\<lambda>x. rem_id x = rem_id (?F ! ?k)) (take ?k ?F) = []"
    by (simp add: filter_empty_conv) (metis imageI)
  then show "popups_for (rem_id (?F ! ?k))
           (snd (reminder_check_cycle_killed strptime now n (d, []))) = []"
    by (simp add: cycle_killed_closed popups_for_def)
  have "?F ! ?k \<in> set (take (Suc ?k) ?F)"
    using k by (simp add: take_Suc_conv_app_nth)
  then have m: "rem_id (?F ! ?k) \<in> set (map rem_id (take ((n + 1) div 2) ?F))"
    unfolding suc by simp
  show "\<forall>r \<in> set (reminders (fst (reminder_check_cycle_killed strptime now n (d, [])))).
           rem_id r = rem_id (?F ! ?k) \<longrightarrow> fired r"
  proof (intro ballI impI)
    fix r assume r: "r \<in> set (reminders (fst (reminder_check_cycle_killed strptime now n (d, []))))"
      and id: "rem_id r = rem_id (?F ! ?k)"
    from r have "r \<in> set (reminders (fold mark_reminder_notified
        (map rem_id (take ((n + 1) div 2) ?F)) d))"
      by (simp add: cycle_killed_closed)
    moreover have "rem_id r \<in> set (map rem_id (take ((n + 1) div 2) ?F))"
      using m by (simp only: id)
    ultimately show "fired r"
      by (rule fold_mark_fired)
  qed
qed

section \<open>The poll cycle\<close>

text \<open>
  Claim C1. A pending reminder whose time text parses to a time not after the clock reading
  of a cycle is, after that cycle, stored with the flag set, and the cycle hands exactly one
  popup for it to the user interface, carrying the row as fetched. There is no bound on how
  far in the past the time lies.
\<close>

theorem due_reminder_fires_once:
  assumes wf: "wf_db d" and mem: "r \<in> set (reminders d)" and pend: "notified r = 0"
    and parse: "strptime (remind_datetime r) = Some rem_dt" and le: "rem_dt \<le> now"
  shows "r\<lparr>notified := 1\<rparr> \<in> set (reminders (fst (reminder_check_cycle strptime now (d, q))))
       \<and> (\<forall>r' \<in> set (reminders (fst (reminder_check_cycle strptime now (d, q)))).
             rem_id r' = rem_id r \<longrightarrow> fired r')
       \<and> popups_for (rem_id r) (snd (reminder_check_cycle strptime now (d, q)))
           = popups_for (rem_id r) q @ [r]"
proof -
  let ?N = "fetched strptime now d"
  have d: "due strptime now r"
    using parse le by (simp add: due_def)
  with mem pend have rN: "r \<in> set ?N"
    by (simp add: set_fetched)
  have rows: "reminders (fst (reminder_check_cycle strptime now (d, q))) =
      map (\<lambda>x. if rem_id x \<in> set (map rem_id ?N) then x\<lparr>notified := 1\<rparr> else x) (reminders d)"
    by (simp add: cycle_closed reminders_fold_mark)
  have a: "r\<lparr>notified := 1\<rparr> \<in> set (reminders (fst (reminder_check_cycle strptime now (d, q))))"
    unfolding rows using mem rN by force
  have b: "\<forall>r' \<in> set (reminders (fst (reminder_check_cycle strptime now (d, q)))).
             rem_id r' = rem_id r \<longrightarrow> fired r'"
    unfolding rows using rN by (auto simp: fired_def split: if_splits)
  have "filter (\<lambda>x. rem_id x = rem_id r) ?N = [r]"
    using distinct_fetched[OF wf_db_distinct[OF wf]] rN by (rule filter_key_singleton)
  then have c: "popups_for (rem_id r) (snd (reminder_check_cycle strptime now (d, q)))
           = popups_for (rem_id r) q @ [r]"
    by (simp add: cycle_closed popups_for_def)
  from a b c show ?thesis by blast
qed

theorem due_reminder_fires_once_witness:
  "wf_db aspirin_db \<and> aspirin \<in> set (reminders aspirin_db) \<and> notified aspirin = 0
   \<and> strptime_Ymd_HM (remind_datetime aspirin) = Some (2024, 1, 1, 8, 0, 0, 0)
   \<and> (2024, 1, 1, 8, 0, 0, 0) \<le> ((2031, 6, 15, 9, 30, 12, 500) :: datetime)
   \<and> aspirin\<lparr>notified := 1\<rparr> \<in> set (reminders (fst (reminder_check_cycle strptime_Ymd_HM
         (2031, 6, 15, 9, 30, 12, 500) (aspirin_db, []))))
   \<and> popups_for 1 (snd (reminder_check_cycle strptime_Ymd_HM
         (2031, 6, 15, 9, 30, 12, 500) (aspirin_db, []))) = [aspirin]"
proof -
  have h1: "wf_db aspirin_db"
    by (simp add: aspirin_db_def wf_db_add wf_db_init)
  have h2: "aspirin \<in> set (reminders aspirin_db)"
    by (simp add: aspirin_db_def aspirin_def add_reminder_to_db_def init_db_def)
  have h3: "notified aspirin = 0"
    by (simp add: aspirin_def)
  have h4: "strptime_Ymd_HM (remind_datetime aspirin) = Some (2024, 1, 1, 8, 0, 0, 0)"
    by code_simp
  have h5: "(2024, 1, 1, 8, 0, 0, 0) \<le> ((2031, 6, 15, 9, 30, 12, 500) :: datetime)"
    by simp
  have id: "rem_id aspirin = 1"
    by (simp add: aspirin_def)
  from due_reminder_fires_once
         [where strptime = strptime_Ymd_HM and q = "[]", OF h1 h2 h3 h4 h5] h1 h2 h3 h4 h5 id
  show ?thesis
    by (simp add: popups_for_def)
qed

text \<open>
  Claim C5. A reminder whose time text parses to a time strictly after the clock reading of
  a cycle is left as it is by that cycle (so its flag is not set), and the cycle hands no
  popup for it to the user interface.
\<close>

theorem not_yet_due_untouched:
  assumes wf: "wf_db d" and mem: "r \<in> set (reminders d)"
    and parse: "strptime (remind_datetime r) = Some rem_dt" and gt: "now < rem_dt"
  shows "r \<in> set (reminders (fst (reminder_check_cycle strptime now (d, q))))
       \<and> (\<forall>r' \<in> set (reminders (fst (reminder_check_cycle strptime now (d, q)))).
             rem_id r' = rem_id r \<longrightarrow> r' = r)
       \<and> popups_for (rem_id r) (snd (reminder_check_cycle strptime now (d, q)))
           = popups_for (rem_id r) q"
proof -
  let ?N = "fetched strptime now d"
  let ?d' = "fst (reminder_check_cycle strptime now (d, q))"
  have nd: "\<not> due strptime now r"
    using parse gt by (simp add: due_def)
  have notin: "rem_id r \<notin> rem_id ` set ?N"
    using wf_db_distinct[OF wf] mem nd by (rule fetched_not_due)
  have rows: "reminders ?d' =
      map (\<lambda>x. if rem_id x \<in> set (map rem_id ?N) then x\<lparr>notified := 1\<rparr> else x) (reminders d)"
    by (simp add: cycle_closed reminders_fold_mark)
  have a: "r \<in> set (reminders ?d')"
    unfolding rows using mem notin by force
  have "wf_db ?d'"
    using wf by (rule wf_db_cycle)
  then have "distinct (map rem_id (reminders ?d'))"
    by (rule wf_db_distinct)
  with a have b: "\<forall>r' \<in> set (reminders ?d'). rem_id r' = rem_id r \<longrightarrow> r' = r"
    using same_id_same_row by blast
  have "filter (\<lambda>x. rem_id x = rem_id r) ?N = []"
    using notin by (simp add: filter_empty_conv) (metis imageI)
  then have c: "popups_for (rem_id r) (snd (reminder_check_cycle strptime now (d, q)))
           = popups_for (rem_id r) q"
    by (simp add: cycle_closed popups_for_def)
  from a b c show ?thesis by blast
qed

theorem not_yet_due_untouched_witness:
  "wf_db aspirin_db \<and> aspirin \<in> set (reminders aspirin_db)
   \<and> strptime_Ymd_HM (remind_datetime aspirin) = Some (2024, 1, 1, 8, 0, 0, 0)
   \<and> ((2024, 1, 1, 7, 59, 59, 999999) :: datetime) < (2024, 1, 1, 8, 0, 0, 0)
   \<and> aspirin \<in> set (reminders (fst (reminder_check_cycle strptime_Ymd_HM
         (2024, 1, 1, 7, 59, 59, 999999) (aspirin_db, []))))
   \<and> popups_for 1 (snd (reminder_check_cycle strptime_Ymd_HM
         (2024, 1, 1, 7, 59, 59, 999999) (aspirin_db, []))) = []"
proof -
  have h1: "wf_db aspirin_db"
    by (simp add: aspirin_db_def wf_db_add wf_db_init)
  have h2: "aspirin \<in> set (reminders aspirin_db)"
    by (simp add: aspirin_db_def aspirin_def add_reminder_to_db_def init_db_def)
  have h3: "strptime_Ymd_HM (remind_datetime aspirin) = Some (2024, 1, 1, 8, 0, 0, 0)"
    by code_simp
  have h4: "((2024, 1, 1, 7, 59, 59, 999999) :: datetime) < (2024, 1, 1, 8, 0, 0, 0)"
    by simp
  have id: "rem_id aspirin = 1"
    by (simp add: aspirin_def)
  from not_yet_due_untouched
         [where strptime = strptime_Ymd_HM and q = "[]", OF h1 h2 h3 h4] h1 h2 h3 h4 id
  show ?thesis
    by (simp add: popups_for_def)
qed

text \<open>
  Claim C9. A pending reminder whose time text the parser refuses is passed over by every
  cycle: however many cycles run, at whatever clock readings, the row is still among the
  pending rows that \<^verbatim>\<open>get_reminders_from_db(include_notified=False)\<close> returns, unchanged
  (so never marked), and no popup for it has been handed to the user interface.
\<close>

theorem unparsable_reminder_never_fires:
  assumes wf: "wf_db d" and mem: "r \<in> set (reminders d)" and pend: "notified r = 0"
    and bad: "strptime (remind_datetime r) = None"
  shows "r \<in> set (get_reminders_from_db False (fst (reminder_check_loop strptime nows (d, q))))
       \<and> popups_for (rem_id r) (snd (reminder_check_loop strptime nows (d, q)))
           = popups_for (rem_id r) q"
  using loop_not_due[where strptime = strptime and nows = nows and q = q, OF wf mem bad] pend
  by (simp add: get_reminders_from_db_def)

theorem unparsable_reminder_never_fires_witness:
  "wf_db vague_db \<and> vague \<in> set (reminders vague_db) \<and> notified vague = 0
   \<and> strptime_Ymd_HM (remind_datetime vague) = None
   \<and> vague \<in> set (get_reminders_from_db False (fst (reminder_check_loop strptime_Ymd_HM
         [(2024, 1, 1, 8, 5, 0, 0), (2024, 1, 1, 8, 5, 30, 0), (2999, 12, 31, 23, 59, 59, 0)]
         (vague_db, []))))
   \<and> popups_for (rem_id vague) (snd (reminder_check_loop strptime_Ymd_HM
         [(2024, 1, 1, 8, 5, 0, 0), (2024, 1, 1, 8, 5, 30, 0), (2999, 12, 31, 23, 59, 59, 0)]
         (vague_db, []))) = []"
proof -
  have h1: "wf_db vague_db"
    by (simp add: vague_db_def wf_db_add wf_db_init)
  have h2: "vague \<in> set (reminders vague_db)"
    by (simp add: vague_db_def vague_def add_reminder_to_db_def init_db_def)
  have h3: "notified vague = 0"
    by (simp add: vague_def)
  have h4: "strptime_Ymd_HM (remind_datetime vague) = None"
    by code_simp
  from unparsable_reminder_never_fires
         [where strptime = strptime_Ymd_HM and q = "[]", OF h1 h2 h3 h4] h1 h2 h3 h4
  show ?thesis
    by (simp add: popups_for_def del: reminder_check_loop.simps)
qed

section \<open>The two views of the table\<close>

text \<open>
  What holds of the two views for every table:
  \<^verbatim>\<open>get_reminders_from_db(include_notified=False)\<close> returns exactly the rows that are
  not fired, and \<^verbatim>\<open>get_reminders_from_db(include_notified=True)\<close> returns all rows, each
  row as often as the table holds it; both results are in ascending order of the stored
  \<^verbatim>\<open>remind_datetime\<close> text, compared byte by byte.
\<close>

lemma views_complete_and_sorted_by_text:
  "mset (get_reminders_from_db False d) = filter_mset (\<lambda>r. \<not> fired r) (mset (reminders d))
   \<and> mset (get_reminders_from_db True d) = mset (reminders d)
   \<and> sorted (map remind_datetime (get_reminders_from_db False d))
   \<and> sorted (map remind_datetime (get_reminders_from_db True d))"
  by (simp add: get_reminders_from_db_def fired_def)

text \<open>
  Claim C4 asks that both views list the reminders in ascending order of their time. The
  order of the text is the order of the times only when every text is written with leading
  zeros, which the schema comment, the form's label and its error message all give as the
  format (\<^verbatim>\<open>YYYY-MM-DD HH:MM\<close>); the check in \<^verbatim>\<open>on_add_reminder\<close> lets text
  without them through. For the two reminders above the form accepts both, and both views
  list the reminder for 2 January before the reminder for 1 January.
\<close>

theorem views_list_later_time_first:
  "fst (on_add_reminder strptime_Ymd_HM ''Aspirin'' ''1 tablet'' ''2024-1-1 8:5'' [] init_db)
     = (''Reminder added.'', ''OK'')
   \<and> fst (on_add_reminder strptime_Ymd_HM ''Ibuprofen'' ''200 mg'' ''2024-01-02 08:00'' []
          (snd (on_add_reminder strptime_Ymd_HM ''Aspirin'' ''1 tablet'' ''2024-1-1 8:5'' []
             init_db)))
     = (''Reminder added.'', ''OK'')
   \<and> reminders two_forms_db = [unpadded_early, padded_late]
   \<and> get_reminders_from_db False two_forms_db = [padded_late, unpadded_early]
   \<and> get_reminders_from_db True two_forms_db = [padded_late, unpadded_early]
   \<and> strptime_Ymd_HM (remind_datetime padded_late) = Some (2024, 1, 2, 8, 0, 0, 0)
   \<and> strptime_Ymd_HM (remind_datetime unpadded_early) = Some (2024, 1, 1, 8, 5, 0, 0)
   \<and> ((2024, 1, 1, 8, 5, 0, 0) :: datetime) < (2024, 1, 2, 8, 0, 0, 0)"
proof -
  have p1: "strptime_Ymd_HM ''2024-1-1 8:5'' = Some (2024, 1, 1, 8, 5, 0, 0)"
    by code_simp
  have p2: "strptime_Ymd_HM ''2024-01-02 08:00'' = Some (2024, 1, 2, 8, 0, 0, 0)"
    by code_simp
  have a1: "on_add_reminder strptime_Ymd_HM ''Aspirin'' ''1 tablet'' ''2024-1-1 8:5'' [] init_db
      = ((''Reminder added.'', ''OK''),
         add_reminder_to_db ''Aspirin'' ''1 tablet'' ''2024-1-1 8:5'' [] init_db)"
    unfolding on_add_reminder_def p1 by simp
  have a2: "on_add_reminder strptime_Ymd_HM ''Ibuprofen'' ''200 mg'' ''2024-01-02 08:00'' [] d
      = ((''Reminder added.'', ''OK''),
         add_reminder_to_db ''Ibuprofen'' ''200 mg'' ''2024-01-02 08:00'' [] d)" for d
    unfolding on_add_reminder_def p2 by simp
  have rows: "reminders two_forms_db = [unpadded_early, padded_late]"
    unfolding two_forms_db_def a1 a2
    by (simp add: add_reminder_to_db_def init_db_def unpadded_early_def padded_late_def)
  have le: "remind_datetime padded_late \<le> remind_datetime unpadded_early"
    by (simp add: unpadded_early_def padded_late_def)
  have nle: "\<not> remind_datetime unpadded_early \<le> remind_datetime padded_late"
    by (simp add: unpadded_early_def padded_late_def)
  have pend: "notified unpadded_early = 0" "notified padded_late = 0"
    by (simp_all add: unpadded_early_def padded_late_def)
  have v0: "get_reminders_from_db False two_forms_db = [padded_late, unpadded_early]"
    unfolding get_reminders_from_db_def rows using le nle pend by simp
  have v1: "get_reminders_from_db True two_forms_db = [padded_late, unpadded_early]"
    unfolding get_reminders_from_db_def rows using le nle by simp
  have q1: "strptime_Ymd_HM (remind_datetime padded_late) = Some (2024, 1, 2, 8, 0, 0, 0)"
    unfolding padded_late_def using p2 by simp
  have q2: "strptime_Ymd_HM (remind_datetime unpadded_early) = Some (2024, 1, 1, 8, 5, 0, 0)"
    unfolding unpadded_early_def using p1 by simp
  have lt: "((2024, 1, 1, 8, 5, 0, 0) :: datetime) < (2024, 1, 2, 8, 0, 0, 0)"
    by simp
  have f1: "fst (on_add_reminder strptime_Ymd_HM ''Aspirin'' ''1 tablet'' ''2024-1-1 8:5'' []
      init_db) = (''Reminder added.'', ''OK'')"
    unfolding a1 by simp
  have f2: "fst (on_add_reminder strptime_Ymd_HM ''Ibuprofen'' ''200 mg'' ''2024-01-02 08:00'' []
          (snd (on_add_reminder strptime_Ymd_HM ''Aspirin'' ''1 tablet'' ''2024-1-1 8:5'' []
             init_db))) = (''Reminder added.'', ''OK'')"
    unfolding a2 by simp
  show ?thesis
    by (intro conjI f1 f2 rows v0 v1 q1 q2 lt)
qed

text \<open>
  Claim C10. For every table, the pending view is the full view with the fired rows filtered
  out: the same rows, with the same fields, in the same relative order.
\<close>

theorem pending_view_is_filtered_full_view:
  "get_reminders_from_db False d = filter (\<lambda>r. \<not> fired r) (get_reminders_from_db True d)"
  by (simp add: get_reminders_from_db_def fired_def filter_sort)

section \<open>The store operations against their contract\<close>




text \<open>
  Claim C7, as the code has it. \<^verbatim>\<open>mark_reminder_notified\<close> sets the flag of the row with
  the given id to 1 and leaves every other row and all ids as they are; doing it twice is
  the same as doing it once, and on a row already fired it changes nothing. When a row with
  the id exists it does what the specification's \<open>markFired\<close> does; when none exists it
  leaves the table unchanged and signals nothing.
\<close>

theorem mark_reminder_notified_contract:
  "(\<forall>r \<in> set (reminders (mark_reminder_notified i d)). rem_id r = i \<longrightarrow> notified r = 1 \<and> fired r)
   \<and> (\<forall>r \<in> set (reminders d). rem_id r \<noteq> i \<longrightarrow> r \<in> set (reminders (mark_reminder_notified i d)))
   \<and> map rem_id (reminders (mark_reminder_notified i d)) = map rem_id (reminders d)
   \<and> mark_reminder_notified i (mark_reminder_notified i d) = mark_reminder_notified i d
   \<and> (wf_db d \<and> (\<forall>r \<in> set (reminders d). rem_id r = i \<longrightarrow> fired r)
        \<longrightarrow> mark_reminder_notified i d = d)
   \<and> (i \<in> set (map rem_id (reminders d))
        \<longrightarrow> spec_markFired i d = Inr (mark_reminder_notified i d))
   \<and> (i \<notin> set (map rem_id (reminders d)) \<longrightarrow> mark_reminder_notified i d = d)"
proof -
  have a: "\<forall>r \<in> set (reminders (mark_reminder_notified i d)). rem_id r = i \<longrightarrow> notified r = 1 \<and> fired r"
    using mark_sets_flag by (simp add: fired_def)
  have b: "\<forall>r \<in> set (reminders d). rem_id r \<noteq> i \<longrightarrow> r \<in> set (reminders (mark_reminder_notified i d))"
    using mark_keeps_others by blast
  have c: "i \<in> set (map rem_id (reminders d))
        \<longrightarrow> spec_markFired i d = Inr (mark_reminder_notified i d)"
    by (simp add: spec_markFired_def mark_reminder_notified_def)
  have e: "map rem_id (reminders (mark_reminder_notified i d)) = map rem_id (reminders d)"
    by (rule ids_mark)
  have f: "mark_reminder_notified i (mark_reminder_notified i d) = mark_reminder_notified i d"
    by (rule mark_idem)
  have g: "wf_db d \<and> (\<forall>r \<in> set (reminders d). rem_id r = i \<longrightarrow> fired r)
        \<longrightarrow> mark_reminder_notified i d = d"
    by (intro impI, elim conjE, rule mark_fired_already)
  have h: "i \<notin> set (map rem_id (reminders d)) \<longrightarrow> mark_reminder_notified i d = d"
    by (intro impI, rule mark_absent)
  show ?thesis
    by (intro conjI a b e f g c h)
qed

theorem mark_reminder_notified_contract_witness:
  "1 \<in> set (map rem_id (reminders aspirin_db))
   \<and> spec_markFired 1 aspirin_db = Inr (mark_reminder_notified 1 aspirin_db)
   \<and> reminders (mark_reminder_notified 1 aspirin_db) = [aspirin\<lparr>notified := 1\<rparr>]
   \<and> 7 \<notin> set (map rem_id (reminders aspirin_db))
   \<and> mark_reminder_notified 7 aspirin_db = aspirin_db"
proof -
  have h1: "1 \<in> set (map rem_id (reminders aspirin_db))"
    by (simp add: aspirin_db_def add_reminder_to_db_def init_db_def)
  have h7: "7 \<notin> set (map rem_id (reminders aspirin_db))"
    by (simp add: aspirin_db_def add_reminder_to_db_def init_db_def)
  have rows: "reminders (mark_reminder_notified 1 aspirin_db) = [aspirin\<lparr>notified := 1\<rparr>]"
    by (simp add: mark_reminder_notified_def aspirin_db_def aspirin_def add_reminder_to_db_def
        init_db_def)
  from mark_reminder_notified_contract [of 1 aspirin_db] h1
  have c1: "spec_markFired 1 aspirin_db = Inr (mark_reminder_notified 1 aspirin_db)"
    by blast
  from mark_reminder_notified_contract [of 7 aspirin_db] h7
  have c7: "mark_reminder_notified 7 aspirin_db = aspirin_db"
    by blast
  show ?thesis
    by (intro conjI h1 c1 rows h7 c7)
qed

text \<open>
  The claim as stated fails for an id that is not in the table: the specification's
  \<open>markFired\<close> signals \<open>NotFoundError\<close>, the helper returns with the table unchanged.
\<close>

theorem mark_reminder_notified_absent_counterexample:
  "spec_markFired 7 aspirin_db = Inl NotFoundError
   \<and> mark_reminder_notified 7 aspirin_db = aspirin_db
   \<and> Inr (mark_reminder_notified 7 aspirin_db) \<noteq> spec_markFired 7 aspirin_db"
  by (simp add: spec_markFired_def mark_reminder_notified_def aspirin_db_def
      add_reminder_to_db_def init_db_def)

text \<open>
  Claim C8, as the code has it. After \<^verbatim>\<open>delete_reminder_from_db\<close> no row with the id is
  in either view, and each view is the old one without that row. When a row with the id
  exists the helper does what the specification's \<open>delete\<close> does; when none exists it
  leaves the table unchanged and signals nothing.
\<close>

theorem delete_reminder_contract:
  "(\<forall>r \<in> set (get_reminders_from_db b (delete_reminder_from_db i d)). rem_id r \<noteq> i)
   \<and> get_reminders_from_db b (delete_reminder_from_db i d)
       = filter (\<lambda>r. rem_id r \<noteq> i) (get_reminders_from_db b d)
   \<and> (i \<in> set (map rem_id (reminders d))
        \<longrightarrow> spec_delete i d = Inr (delete_reminder_from_db i d))
   \<and> (i \<notin> set (map rem_id (reminders d)) \<longrightarrow> delete_reminder_from_db i d = d)"
proof -
  have eq: "get_reminders_from_db b (delete_reminder_from_db i d)
       = filter (\<lambda>r. rem_id r \<noteq> i) (get_reminders_from_db b d)"
    by (rule get_reminders_delete)
  have a: "\<forall>r \<in> set (get_reminders_from_db b (delete_reminder_from_db i d)). rem_id r \<noteq> i"
    unfolding eq by simp
  have c: "i \<in> set (map rem_id (reminders d))
        \<longrightarrow> spec_delete i d = Inr (delete_reminder_from_db i d)"
    by (simp add: spec_delete_def delete_reminder_from_db_def)
  have h: "i \<notin> set (map rem_id (reminders d)) \<longrightarrow> delete_reminder_from_db i d = d"
    by (intro impI, rule delete_absent)
  show ?thesis
    by (intro conjI a eq c h)
qed

theorem delete_reminder_contract_witness:
  "1 \<in> set (map rem_id (reminders aspirin_db))
   \<and> spec_delete 1 aspirin_db = Inr (delete_reminder_from_db 1 aspirin_db)
   \<and> get_reminders_from_db True aspirin_db = [aspirin]
   \<and> get_reminders_from_db True (delete_reminder_from_db 1 aspirin_db) = []
   \<and> get_reminders_from_db False (delete_reminder_from_db 1 aspirin_db) = []
   \<and> 7 \<notin> set (map rem_id (reminders aspirin_db))
   \<and> delete_reminder_from_db 7 aspirin_db = aspirin_db"
proof -
  have h1: "1 \<in> set (map rem_id (reminders aspirin_db))"
    by (simp add: aspirin_db_def add_reminder_to_db_def init_db_def)
  have h7: "7 \<notin> set (map rem_id (reminders aspirin_db))"
    by (simp add: aspirin_db_def add_reminder_to_db_def init_db_def)
  have all: "get_reminders_from_db True aspirin_db = [aspirin]"
    by (simp add: get_reminders_from_db_def aspirin_db_def aspirin_def add_reminder_to_db_def
        init_db_def)
  have pend: "get_reminders_from_db False aspirin_db = [aspirin]"
    by (simp add: get_reminders_from_db_def aspirin_db_def aspirin_def add_reminder_to_db_def
        init_db_def)
  have id: "rem_id aspirin = 1"
    by (simp add: aspirin_def)
  from delete_reminder_contract [of True 1 aspirin_db] h1
  have c1: "spec_delete 1 aspirin_db = Inr (delete_reminder_from_db 1 aspirin_db)"
    and t: "get_reminders_from_db True (delete_reminder_from_db 1 aspirin_db)
       = filter (\<lambda>r. rem_id r \<noteq> 1) (get_reminders_from_db True aspirin_db)"
    by blast+
  from delete_reminder_contract [of False 1 aspirin_db]
  have f: "get_reminders_from_db False (delete_reminder_from_db 1 aspirin_db)
       = filter (\<lambda>r. rem_id r \<noteq> 1) (get_reminders_from_db False aspirin_db)"
    by blast
  from delete_reminder_contract [of True 7 aspirin_db] h7
  have c7: "delete_reminder_from_db 7 aspirin_db = aspirin_db"
    by blast
  have t': "get_reminders_from_db True (delete_reminder_from_db 1 aspirin_db) = []"
    unfolding t all using id by simp
  have f': "get_reminders_from_db False (delete_reminder_from_db 1 aspirin_db) = []"
    unfolding f pend using id by simp
  show ?thesis
    by (intro conjI h1 c1 all t' f' h7 c7)
qed

text \<open>
  The claim as stated fails for an id that is not in the table: the specification's
  \<open>delete\<close> fails with \<open>NotFoundError\<close>, the helper returns with the table unchanged.
\<close>

theorem delete_reminder_absent_counterexample:
  "spec_delete 7 aspirin_db = Inl NotFoundError
   \<and> delete_reminder_from_db 7 aspirin_db = aspirin_db
   \<and> Inr (delete_reminder_from_db 7 aspirin_db) \<noteq> spec_delete 7 aspirin_db"
  by (simp add: spec_delete_def delete_reminder_from_db_def aspirin_db_def
      add_reminder_to_db_def init_db_def)

section \<open>The flag over the life of the table\<close>

text \<open>
  Claim C2. Starting from any well-formed table, over any sequence of additions, deletions
  and poll cycles: a reminder that is fired stays fired for as long as its row exists, and
  no popup is ever handed over for it again; no id ever gets two popups; a single operation
  turns an unfired reminder into a fired one only if it is a poll cycle whose clock reading
  is not before the time the reminder's text parses to; and
  \<^verbatim>\<open>mark_reminder_notified\<close>, for whatever id, leaves every fired reminder fired.
\<close>

theorem fired_flag_never_reset_no_second_popup:
  assumes wf: "wf_db d"
  shows "(\<forall>r \<in> set (reminders d). fired r \<longrightarrow>
            (\<forall>r' \<in> set (reminders (fst (run strptime acts (d, [])))).
                rem_id r' = rem_id r \<longrightarrow> fired r')
            \<and> popups_for (rem_id r) (snd (run strptime acts (d, []))) = [])
       \<and> distinct (map rem_id (snd (run strptime acts (d, []))))
       \<and> (\<forall>r \<in> set (reminders d). \<not> fired r \<longrightarrow>
            (\<forall>r' \<in> set (reminders (fst (step strptime a (d, q)))).
                rem_id r' = rem_id r \<and> fired r' \<longrightarrow>
                (\<exists>now rem_dt. a = Poll now \<and> strptime (remind_datetime r) = Some rem_dt
                    \<and> rem_dt \<le> now)))
       \<and> (\<forall>r \<in> set (reminders d). fired r \<longrightarrow>
            (\<forall>r' \<in> set (reminders (mark_reminder_notified i d)).
                rem_id r' = rem_id r \<longrightarrow> fired r'))"
proof -
  have a: "\<forall>r \<in> set (reminders d). fired r \<longrightarrow>
            (\<forall>r' \<in> set (reminders (fst (run strptime acts (d, [])))).
                rem_id r' = rem_id r \<longrightarrow> fired r')
            \<and> popups_for (rem_id r) (snd (run strptime acts (d, []))) = []"
  proof (intro ballI impI)
    fix r assume "r \<in> set (reminders d)" "fired r"
    with wf have "settled (rem_id r) (fst (d, []::reminder list))"
      by (simp add: fired_settled)
    from settled_run[OF this, of strptime acts]
    show "(\<forall>r' \<in> set (reminders (fst (run strptime acts (d, [])))).
                rem_id r' = rem_id r \<longrightarrow> fired r')
            \<and> popups_for (rem_id r) (snd (run strptime acts (d, []))) = []"
      by (simp add: settled_def popups_for_def)
  qed
  have "queue_ok (d, [])"
    using wf by (simp add: queue_ok_def)
  then have "queue_ok (run strptime acts (d, []))"
    by (rule queue_ok_run)
  then have b: "distinct (map rem_id (snd (run strptime acts (d, []))))"
    by (simp add: queue_ok_def)
  have c: "\<forall>r \<in> set (reminders d). \<not> fired r \<longrightarrow>
            (\<forall>r' \<in> set (reminders (fst (step strptime a (d, q)))).
                rem_id r' = rem_id r \<and> fired r' \<longrightarrow>
                (\<exists>now rem_dt. a = Poll now \<and> strptime (remind_datetime r) = Some rem_dt
                    \<and> rem_dt \<le> now))"
    using flag_set_only_when_due[OF wf] by blast
  have e: "\<forall>r \<in> set (reminders d). fired r \<longrightarrow>
            (\<forall>r' \<in> set (reminders (mark_reminder_notified i d)).
                rem_id r' = rem_id r \<longrightarrow> fired r')"
  proof (intro ballI impI)
    fix r r' assume r: "r \<in> set (reminders d)" "fired r"
      and r': "r' \<in> set (reminders (mark_reminder_notified i d))" "rem_id r' = rem_id r"
    from wf r have "settled (rem_id r) d"
      by (rule fired_settled)
    then have "settled (rem_id r) (fold mark_reminder_notified [i] d)"
      by (rule settled_fold_mark)
    with r' show "fired r'"
      by (simp add: settled_def)
  qed
  show ?thesis
    by (intro conjI a b c e)
qed

theorem fired_flag_never_reset_no_second_popup_witness:
  "wf_db (mark_reminder_notified 1 aspirin_db)
   \<and> aspirin\<lparr>notified := 1\<rparr> \<in> set (reminders (mark_reminder_notified 1 aspirin_db))
   \<and> fired (aspirin\<lparr>notified := 1\<rparr>)
   \<and> popups_for 1 (snd (run strptime_Ymd_HM
         [Poll (2024, 1, 1, 8, 5, 30, 0), Add ''Ibuprofen'' ''200 mg'' ''2024-01-01 09:00'' [],
          Poll (2024, 1, 1, 9, 0, 0, 0)] (mark_reminder_notified 1 aspirin_db, []))) = []
   \<and> distinct (map rem_id (snd (run strptime_Ymd_HM
         [Poll (2024, 1, 1, 8, 5, 30, 0), Add ''Ibuprofen'' ''200 mg'' ''2024-01-01 09:00'' [],
          Poll (2024, 1, 1, 9, 0, 0, 0)] (mark_reminder_notified 1 aspirin_db, []))))"
proof -
  have h1: "wf_db (mark_reminder_notified 1 aspirin_db)"
    by (simp add: aspirin_db_def wf_db_mark wf_db_add wf_db_init)
  have h2: "aspirin\<lparr>notified := 1\<rparr> \<in> set (reminders (mark_reminder_notified 1 aspirin_db))"
    by (simp add: mark_reminder_notified_def aspirin_db_def aspirin_def add_reminder_to_db_def
        init_db_def)
  have h3: "fired (aspirin\<lparr>notified := 1\<rparr>)"
    by (simp add: fired_def)
  have id: "rem_id (aspirin\<lparr>notified := 1\<rparr>) = 1"
    by (simp add: aspirin_def)
  note t = fired_flag_never_reset_no_second_popup [OF h1, where strptime = strptime_Ymd_HM
      and acts = "[Poll (2024, 1, 1, 8, 5, 30, 0),
                   Add ''Ibuprofen'' ''200 mg'' ''2024-01-01 09:00'' [],
                   Poll (2024, 1, 1, 9, 0, 0, 0)]"]
  from t h2 h3 id
  have c1: "popups_for 1 (snd (run strptime_Ymd_HM
         [Poll (2024, 1, 1, 8, 5, 30, 0), Add ''Ibuprofen'' ''200 mg'' ''2024-01-01 09:00'' [],
          Poll (2024, 1, 1, 9, 0, 0, 0)] (mark_reminder_notified 1 aspirin_db, []))) = []"
    by metis
  from t
  have c2: "distinct (map rem_id (snd (run strptime_Ymd_HM
         [Poll (2024, 1, 1, 8, 5, 30, 0), Add ''Ibuprofen'' ''200 mg'' ''2024-01-01 09:00'' [],
          Poll (2024, 1, 1, 9, 0, 0, 0)] (mark_reminder_notified 1 aspirin_db, []))))"
    by blast
  show ?thesis
    by (intro conjI h1 h2 h3 c1 c2)
qed

section \<open>A cycle that is cut short\<close>

text \<open>
  Claim C3. In a cycle, \<^verbatim>\<open>mark_reminder_notified\<close> for a due reminder comes before the
  \<^verbatim>\<open>wx.CallAfter\<close> for it. So wherever the process dies, every popup that has been handed
  over is for a reminder already marked in the table, the cycle that runs after a restart
  hands over no second popup for it, and no id got two popups. If the process dies between
  the two calls, the reminder is marked, has no popup, and gets none from the next cycle:
  the notification is lost, not repeated. A process that lives long enough does the whole
  cycle.
\<close>

theorem mark_precedes_popup:
  assumes wf: "wf_db d"
  shows "(\<forall>x \<in> set (snd (reminder_check_cycle_killed strptime now n (d, []))).
            (\<forall>r \<in> set (reminders (fst (reminder_check_cycle_killed strptime now n (d, [])))).
                rem_id r = rem_id x \<longrightarrow> fired r)
            \<and> popups_for (rem_id x) (snd (reminder_check_cycle strptime now'
                  (fst (reminder_check_cycle_killed strptime now n (d, [])), []))) = [])
       \<and> distinct (map rem_id (snd (reminder_check_cycle_killed strptime now n (d, []))))
       \<and> (odd n \<and> n < 2 * length (fetched strptime now d) \<longrightarrow>
            popups_for (rem_id (fetched strptime now d ! (n div 2)))
              (snd (reminder_check_cycle_killed strptime now n (d, []))) = []
            \<and> popups_for (rem_id (fetched strptime now d ! (n div 2)))
                (snd (reminder_check_cycle strptime now'
                  (fst (reminder_check_cycle_killed strptime now n (d, [])), []))) = [])
       \<and> (2 * length (fetched strptime now d) \<le> n \<longrightarrow>
            reminder_check_cycle_killed strptime now n (d, [])
              = reminder_check_cycle strptime now (d, []))"
proof -
  let ?K = "reminder_check_cycle_killed strptime now n (d, [])"
  have a: "\<forall>x \<in> set (snd ?K).
            (\<forall>r \<in> set (reminders (fst ?K)). rem_id r = rem_id x \<longrightarrow> fired r)
            \<and> popups_for (rem_id x) (snd (reminder_check_cycle strptime now' (fst ?K, []))) = []"
  proof
    fix x assume x: "x \<in> set (snd ?K)"
    have f: "\<forall>r \<in> set (reminders (fst ?K)). rem_id r = rem_id x \<longrightarrow> fired r"
      using killed_popup_marked[OF x] by blast
    have "popups_for (rem_id x) (snd (reminder_check_cycle strptime now' (fst ?K, [])))
        = popups_for (rem_id x) []"
      using f by (rule cycle_skips_fired)
    with f show "(\<forall>r \<in> set (reminders (fst ?K)). rem_id r = rem_id x \<longrightarrow> fired r)
            \<and> popups_for (rem_id x) (snd (reminder_check_cycle strptime now' (fst ?K, []))) = []"
      by (simp add: popups_for_def)
  qed
  have b: "distinct (map rem_id (snd ?K))"
    using wf by (rule killed_popups_distinct)
  have c: "odd n \<and> n < 2 * length (fetched strptime now d) \<longrightarrow>
            popups_for (rem_id (fetched strptime now d ! (n div 2))) (snd ?K) = []
            \<and> popups_for (rem_id (fetched strptime now d ! (n div 2)))
                (snd (reminder_check_cycle strptime now' (fst ?K, []))) = []"
  proof (intro impI, elim conjE)
    assume odd: "odd n" and lt: "n < 2 * length (fetched strptime now d)"
    have 1: "popups_for (rem_id (fetched strptime now d ! (n div 2))) (snd ?K) = []"
      using wf odd lt by (rule killed_between(1))
    have f: "\<forall>r \<in> set (reminders (fst ?K)).
           rem_id r = rem_id (fetched strptime now d ! (n div 2)) \<longrightarrow> fired r"
      using wf odd lt by (rule killed_between(2))
    have "popups_for (rem_id (fetched strptime now d ! (n div 2)))
            (snd (reminder_check_cycle strptime now' (fst ?K, [])))
        = popups_for (rem_id (fetched strptime now d ! (n div 2))) []"
      using f by (rule cycle_skips_fired)
    with 1 show "popups_for (rem_id (fetched strptime now d ! (n div 2))) (snd ?K) = []
            \<and> popups_for (rem_id (fetched strptime now d ! (n div 2)))
                (snd (reminder_check_cycle strptime now' (fst ?K, []))) = []"
      by (simp add: popups_for_def)
  qed
  have e: "2 * length (fetched strptime now d) \<le> n \<longrightarrow>
            ?K = reminder_check_cycle strptime now (d, [])"
    using cycle_killed_enough by blast
  show ?thesis
    by (intro conjI a b c e)
qed

theorem mark_precedes_popup_witness:
  "wf_db aspirin_db
   \<and> fetched strptime_Ymd_HM (2024, 1, 1, 8, 5, 0, 0) aspirin_db = [aspirin]
   \<and> reminder_check_cycle_killed strptime_Ymd_HM (2024, 1, 1, 8, 5, 0, 0) 1 (aspirin_db, [])
       = (mark_reminder_notified 1 aspirin_db, [])
   \<and> odd (1::nat) \<and> (1::nat) < 2 * length (fetched strptime_Ymd_HM (2024, 1, 1, 8, 5, 0, 0) aspirin_db)
   \<and> popups_for 1 (snd (reminder_check_cycle strptime_Ymd_HM (2024, 1, 1, 8, 5, 30, 0)
        (fst (reminder_check_cycle_killed strptime_Ymd_HM (2024, 1, 1, 8, 5, 0, 0) 1
               (aspirin_db, [])), []))) = []
   \<and> (2::nat) * length (fetched strptime_Ymd_HM (2024, 1, 1, 8, 5, 0, 0) aspirin_db) \<le> 2
   \<and> reminder_check_cycle_killed strptime_Ymd_HM (2024, 1, 1, 8, 5, 0, 0) 2 (aspirin_db, [])
       = reminder_check_cycle strptime_Ymd_HM (2024, 1, 1, 8, 5, 0, 0) (aspirin_db, [])
   \<and> reminder_check_cycle strptime_Ymd_HM (2024, 1, 1, 8, 5, 0, 0) (aspirin_db, [])
       = (mark_reminder_notified 1 aspirin_db, [aspirin])"
proof -
  have h1: "wf_db aspirin_db"
    by (simp add: aspirin_db_def wf_db_add wf_db_init)
  have p: "strptime_Ymd_HM ''2024-01-01 08:00'' = Some (2024, 1, 1, 8, 0, 0, 0)"
    by code_simp
  have F: "fetched strptime_Ymd_HM (2024, 1, 1, 8, 5, 0, 0) aspirin_db = [aspirin]"
    by (simp add: fetched_def get_reminders_from_db_def aspirin_db_def aspirin_def
        add_reminder_to_db_def init_db_def due_def p)
  have id: "rem_id aspirin = 1"
    by (simp add: aspirin_def)
  have K1: "reminder_check_cycle_killed strptime_Ymd_HM (2024, 1, 1, 8, 5, 0, 0) 1 (aspirin_db, [])
       = (mark_reminder_notified 1 aspirin_db, [])"
    unfolding cycle_killed_closed F by (simp add: id)
  have C: "reminder_check_cycle strptime_Ymd_HM (2024, 1, 1, 8, 5, 0, 0) (aspirin_db, [])
       = (mark_reminder_notified 1 aspirin_db, [aspirin])"
    unfolding cycle_closed F by (simp add: id)
  have o: "odd (1::nat)" "(1::nat) < 2 * length (fetched strptime_Ymd_HM (2024, 1, 1, 8, 5, 0, 0) aspirin_db)"
    unfolding F by simp_all
  have l: "(2::nat) * length (fetched strptime_Ymd_HM (2024, 1, 1, 8, 5, 0, 0) aspirin_db) \<le> 2"
    unfolding F by simp
  note t1 = mark_precedes_popup [OF h1, where strptime = strptime_Ymd_HM
      and now = "(2024, 1, 1, 8, 5, 0, 0)" and now' = "(2024, 1, 1, 8, 5, 30, 0)" and n = 1]
  from t1 o have "popups_for (rem_id (fetched strptime_Ymd_HM (2024, 1, 1, 8, 5, 0, 0) aspirin_db ! (1 div 2)))
        (snd (reminder_check_cycle strptime_Ymd_HM (2024, 1, 1, 8, 5, 30, 0)
        (fst (reminder_check_cycle_killed strptime_Ymd_HM (2024, 1, 1, 8, 5, 0, 0) 1
               (aspirin_db, [])), []))) = []"
    by blast
  then have lost: "popups_for 1 (snd (reminder_check_cycle strptime_Ymd_HM (2024, 1, 1, 8, 5, 30, 0)
        (fst (reminder_check_cycle_killed strptime_Ymd_HM (2024, 1, 1, 8, 5, 0, 0) 1
               (aspirin_db, [])), []))) = []"
    unfolding F by (simp add: id)
  note t2 = mark_precedes_popup [OF h1, where strptime = strptime_Ymd_HM
      and now = "(2024, 1, 1, 8, 5, 0, 0)" and now' = "(2024, 1, 1, 8, 5, 30, 0)" and n = 2]
  from t2 l have full: "reminder_check_cycle_killed strptime_Ymd_HM (2024, 1, 1, 8, 5, 0, 0) 2 (aspirin_db, [])
       = reminder_check_cycle strptime_Ymd_HM (2024, 1, 1, 8, 5, 0, 0) (aspirin_db, [])"
    by blast
  show ?thesis
    by (intro conjI h1 F K1 o lost l full C)
qed

end
